theory Spec2Isabelle
  imports Main "HOL-Library.Sublist"
begin

section \<open>Strings\<close>

text \<open>
  The program works on Python \<open>str\<close> values. A text is modelled by the byte string of
  its UTF-8 encoding: every character the program's patterns and tests name is ASCII, and
  no byte of a multi-byte UTF-8 sequence is an ASCII byte, so the patterns split a text at
  the same places in both readings.
\<close>

definition startswith :: "string \<Rightarrow> string \<Rightarrow> bool" where
  "startswith s t = prefix t s"

definition endswith :: "string \<Rightarrow> string \<Rightarrow> bool" where
  "endswith s t = suffix t s"

text \<open>\<open>t in s\<close> on strings: \<open>t\<close> occurs in \<open>s\<close> as a contiguous piece.\<close>

definition str_in :: "string \<Rightarrow> string \<Rightarrow> bool" where
  "str_in t s = sublist t s"

text \<open>
  \<open>s.replace(old, new)\<close>: every occurrence of \<open>old\<close>, found from the left without
  overlap, becomes \<open>new\<close>. With an empty \<open>old\<close> Python puts \<open>new\<close> before every
  character and at the end.
\<close>

function str_replace :: "string \<Rightarrow> string \<Rightarrow> string \<Rightarrow> string" where
  "str_replace old new [] = (if old = [] then new else [])"
| "str_replace old new (c # cs) =
     (if old = [] then new @ c # str_replace old new cs
      else if prefix old (c # cs) then new @ str_replace old new (drop (length old) (c # cs))
      else c # str_replace old new cs)"
  by pat_completeness auto
termination
  by (relation "measure (\<lambda>(old, new, s). length s)") auto

text \<open>
  \<open>not url.strip()\<close>: the string holds nothing but whitespace. Python's \<open>str.strip\<close>
  removes the code points for which \<open>isspace\<close> holds; \<open>all_space\<close> reads them off the
  UTF-8 bytes: U+0009 to U+000D, U+001C to U+0020, U+0085, U+00A0, U+1680, U+2000 to
  U+200A, U+2028, U+2029, U+202F, U+205F, U+3000.
\<close>

definition ascii_space :: "char \<Rightarrow> bool" where
  "ascii_space c = (let n = of_char c :: nat in (9 \<le> n \<and> n \<le> 13) \<or> (28 \<le> n \<and> n \<le> 32))"

definition space2 :: "char \<Rightarrow> char \<Rightarrow> bool" where
  "space2 c b = (of_char c = (0xC2 :: nat) \<and> (of_char b = (0x85 :: nat) \<or> of_char b = (0xA0 :: nat)))"

definition space3 :: "char \<Rightarrow> char \<Rightarrow> char \<Rightarrow> bool" where
  "space3 c b1 b2 =
     (let n = of_char c :: nat; n1 = of_char b1 :: nat; n2 = of_char b2 :: nat in
        (n = 0xE1 \<and> n1 = 0x9A \<and> n2 = 0x80)
      \<or> (n = 0xE2 \<and> n1 = 0x80 \<and> ((0x80 \<le> n2 \<and> n2 \<le> 0x8A) \<or> n2 = 0xA8 \<or> n2 = 0xA9 \<or> n2 = 0xAF))
      \<or> (n = 0xE2 \<and> n1 = 0x81 \<and> n2 = 0x9F)
      \<or> (n = 0xE3 \<and> n1 = 0x80 \<and> n2 = 0x80))"

fun all_space :: "string \<Rightarrow> bool" where
  "all_space [] = True"
| "all_space (c # cs) =
     (if ascii_space c then all_space cs
      else case cs of
          [] \<Rightarrow> False
        | b1 # cs1 \<Rightarrow>
            if space2 c b1 then all_space cs1
            else (case cs1 of
                [] \<Rightarrow> False
              | b2 # cs2 \<Rightarrow> space3 c b1 b2 \<and> all_space cs2))"

section \<open>Regular expressions\<close>

text \<open>
  The patterns of the program are sequences of single characters, negated character sets
  and the dot, each taken once or repeated (greedily with \<open>*\<close> and \<open>+\<close>, lazily with
  \<open>*?\<close>), with capture groups that are not nested. \<open>Mark\<close> stands for a parenthesis of
  a group.
\<close>

datatype atom = Lit char | AnyChar | NoneOf "char list"

datatype item = One atom | Many atom | Few atom | Mark

fun accepts :: "atom \<Rightarrow> char \<Rightarrow> bool" where
  "accepts (Lit d) c = (c = d)"
| "accepts AnyChar c = (c \<noteq> CHR 0x0A)"
| "accepts (NoneOf ds) c = (c \<notin> set ds)"

text \<open>
  A match is returned as the matched text cut at the marks, with the text that follows
  the match. \<open>push c\<close> puts a consumed character in front of a match of the rest.
\<close>

fun push :: "char \<Rightarrow> string list \<times> string \<Rightarrow> string list \<times> string" where
  "push c ([], r) = ([[c]], r)"
| "push c (seg # segs, r) = ((c # seg) # segs, r)"

fun cut :: "string list \<times> string \<Rightarrow> string list \<times> string" where
  "cut (segs, r) = ([] # segs, r)"

text \<open>
  \<open>rmatch ps s\<close> matches the pattern \<open>ps\<close> at the start of \<open>s\<close> as the backtracking
  matcher of Python's \<open>re\<close> does: a greedy repetition first tries to take one more
  character, a lazy one first tries to go on with the rest of the pattern, and the first
  way that lets the whole pattern match is the result.
\<close>

fun rmatch :: "item list \<Rightarrow> string \<Rightarrow> (string list \<times> string) option" where
  "rmatch [] s = Some ([[]], s)"
| "rmatch (Mark # ps) s = map_option cut (rmatch ps s)"
| "rmatch (One a # ps) [] = None"
| "rmatch (One a # ps) (c # cs) =
     (if accepts a c then map_option (push c) (rmatch ps cs) else None)"
| "rmatch (Many a # ps) [] = rmatch ps []"
| "rmatch (Many a # ps) (c # cs) =
     (if accepts a c then
        (case rmatch (Many a # ps) cs of
           Some m \<Rightarrow> Some (push c m)
         | None \<Rightarrow> rmatch ps (c # cs))
      else rmatch ps (c # cs))"
| "rmatch (Few a # ps) [] = rmatch ps []"
| "rmatch (Few a # ps) (c # cs) =
     (case rmatch ps (c # cs) of
        Some m \<Rightarrow> Some m
      | None \<Rightarrow> if accepts a c then map_option (push c) (rmatch (Few a # ps) cs) else None)"

text \<open>\<open>match.group(k)\<close> for groups that are not nested; group 0 is the whole match.\<close>

definition group :: "nat \<Rightarrow> string list \<Rightarrow> string" where
  "group k segs = (if k = 0 then concat segs
                   else if 2 * k - 1 < length segs then segs ! (2 * k - 1) else [])"

text \<open>
  The matches of a pattern in a text, from the left and without overlap, as
  \<open>re.finditer\<close> yields them. After a match that is not empty the search goes on where
  the match ended, otherwise one character further.
\<close>

function re_finditer :: "item list \<Rightarrow> string \<Rightarrow> string list list" where
  "re_finditer ps [] = (case rmatch ps [] of None \<Rightarrow> [] | Some (segs, r) \<Rightarrow> [segs])"
| "re_finditer ps (c # cs) =
     (case rmatch ps (c # cs) of
        None \<Rightarrow> re_finditer ps cs
      | Some (segs, r) \<Rightarrow>
          if length r < length (c # cs) then segs # re_finditer ps r
          else segs # re_finditer ps cs)"
  by pat_completeness auto
termination
  by (relation "measure (\<lambda>(ps, s). length s)") auto

text \<open>\<open>re.findall\<close> for a pattern with one group: the group of every match.\<close>

definition re_findall :: "item list \<Rightarrow> string \<Rightarrow> string list" where
  "re_findall ps s = map (group 1) (re_finditer ps s)"

text \<open>
  \<open>re.sub(pattern, repl, s)\<close> with a function \<open>repl\<close>: the text with every match
  replaced by what \<open>repl\<close> returns for it.
\<close>

function re_sub :: "item list \<Rightarrow> (string list \<Rightarrow> string) \<Rightarrow> string \<Rightarrow> string" where
  "re_sub ps repl [] = (case rmatch ps [] of None \<Rightarrow> [] | Some (segs, r) \<Rightarrow> repl segs)"
| "re_sub ps repl (c # cs) =
     (case rmatch ps (c # cs) of
        None \<Rightarrow> c # re_sub ps repl cs
      | Some (segs, r) \<Rightarrow>
          if length r < length (c # cs) then repl segs @ re_sub ps repl r
          else repl segs @ c # re_sub ps repl cs)"
  by pat_completeness auto
termination
  by (relation "measure (\<lambda>(ps, repl, s). length s)") auto

definition lit :: "string \<Rightarrow> item list" where
  "lit s = map (\<lambda>c. One (Lit c)) s"

text \<open>\<open>x+\<close> is \<open>x\<close> followed by \<open>x*\<close>.\<close>

definition plus :: "atom \<Rightarrow> item list" where
  "plus a = [One a, Many a]"

definition dq :: char where
  "dq = CHR 0x22"

section \<open>The patterns of the program\<close>

text \<open>\<^verbatim>\<open>!\[.*?\]\((.*?)\)\<close>, the inline image link of the extractor.\<close>

definition markdown_pattern :: "item list" where
  "markdown_pattern =
     lit ''!['' @ [Few AnyChar] @ lit '']('' @ [Mark, Few AnyChar, Mark] @ lit '')''"

text \<open>\<^verbatim>\<open><img[^>]+src="([^">]+)"\<close>, the image tag of the extractor.\<close>

definition html_pattern :: "item list" where
  "html_pattern =
     lit ''<img'' @ plus (NoneOf ''>'') @ lit ''src='' @ [One (Lit dq), Mark]
       @ plus (NoneOf [dq, CHR ''>'']) @ [Mark, One (Lit dq)]"

text \<open>\<^verbatim>\<open><img[^>]+src="([^">]+)"[^>]*/>\<close>, the self-closing image tag of the extractor.\<close>

definition self_closing_pattern :: "item list" where
  "self_closing_pattern =
     lit ''<img'' @ plus (NoneOf ''>'') @ lit ''src='' @ [One (Lit dq), Mark]
       @ plus (NoneOf [dq, CHR ''>'']) @ [Mark, One (Lit dq), Many (NoneOf ''>'')] @ lit ''/>''"

text \<open>\<^verbatim>\<open>!\[(.*?)\]\((.*?)\)\<close>, the inline image link of the rewriter.\<close>

definition markdown_sub_pattern :: "item list" where
  "markdown_sub_pattern =
     lit ''!['' @ [Mark, Few AnyChar, Mark] @ lit '']('' @ [Mark, Few AnyChar, Mark] @ lit '')''"

text \<open>\<^verbatim>\<open><img[^>]+src="([^">]+)"[^>]*>\<close>, the image tag of the rewriter.\<close>

definition html_sub_pattern :: "item list" where
  "html_sub_pattern =
     lit ''<img'' @ plus (NoneOf ''>'') @ lit ''src='' @ [One (Lit dq), Mark]
       @ plus (NoneOf [dq, CHR ''>'']) @ [Mark, One (Lit dq), Many (NoneOf ''>'')] @ lit ''>''"

section \<open>Paths\<close>

text \<open>\<open>os.path.basename\<close>: what follows the last slash.\<close>

definition basename :: "string \<Rightarrow> string" where
  "basename p = rev (takeWhile (\<lambda>c. c \<noteq> CHR ''/'') (rev p))"

text \<open>
  \<open>os.path.join(a, b)\<close>: \<open>b\<close> alone when it starts with a slash, otherwise \<open>a\<close> and
  \<open>b\<close> with one slash between them unless \<open>a\<close> is empty or ends with one.
\<close>

definition path_join :: "string \<Rightarrow> string \<Rightarrow> string" where
  "path_join a b =
     (if startswith b ''/'' then b
      else if a = [] \<or> endswith a ''/'' then a @ b
      else a @ ''/'' @ b)"

text \<open>
  \<open>os.path.splitext(p)[0]\<close>: \<open>p\<close> without its extension, which starts at the last dot
  of the last component, when one character before that dot in the component is
  not a dot.
\<close>

definition splitext_root :: "string \<Rightarrow> string" where
  "splitext_root p =
     (let b = basename p;
          ext = rev (takeWhile (\<lambda>c. c \<noteq> CHR ''.'') (rev b));
          stem = take (length b - length ext - 1) b
      in if CHR ''.'' \<in> set b \<and> list_ex (\<lambda>c. c \<noteq> CHR ''.'') stem
         then take (length p - length ext - 1) p else p)"

text \<open>\<open>s.split('.')[0]\<close>: what precedes the first dot.\<close>

definition before_dot :: "string \<Rightarrow> string" where
  "before_dot s = takeWhile (\<lambda>c. c \<noteq> CHR ''.'') s"

text \<open>\<open>s.replace(" ", "_")\<close>.\<close>

definition underscored :: "string \<Rightarrow> string" where
  "underscored s = map (\<lambda>c. if c = CHR '' '' then CHR ''_'' else c) s"

text \<open>The decimal numeral of a number, as an f-string prints it.\<close>

fun digits :: "nat \<Rightarrow> nat \<Rightarrow> string" where
  "digits 0 n = []"
| "digits (Suc fuel) n =
     (if n < 10 then [char_of (48 + n)] else digits fuel (n div 10) @ [char_of (48 + n mod 10)])"

definition str_of_nat :: "nat \<Rightarrow> string" where
  "str_of_nat n = digits (Suc n) n"

section \<open>The world outside the program\<close>

text \<open>
  Three library functions are taken as parameters: the path component of
  \<open>urllib.parse.urlparse\<close>, \<open>urllib.parse.urljoin\<close> (each with \<open>None\<close> where the
  library raises \<open>ValueError\<close>) and the hexadecimal MD5 digest of a string.
\<close>

record pylib =
  urlparse_path :: "string \<Rightarrow> string option"
  urljoin :: "string \<Rightarrow> string \<Rightarrow> string option"
  md5_hexdigest :: "string \<Rightarrow> string"

text \<open>
  What \<open>requests.get\<close> followed by reading the body does: the request raises, or a
  response arrives with a status code, a content type (empty when the header is absent)
  and a body, which is read to its end or breaks off with an exception after a part.
\<close>

datatype body = Complete string | Broken string

datatype http_result = Failed | Response nat string body

datatype error = FileNotFoundError string | OSError string | ValueError string

text \<open>
  The file system and the network. \<open>files\<close> holds the regular files by path, relative
  to the working directory \<open>cwd\<close>, a text file as the text that Python reads from it
  and writes to it; \<open>listing\<close> is what the directory
  \<open>source_markdowns\<close> lists, in the order the system gives; \<open>mkdir_ok\<close> and
  \<open>writable\<close> say where a directory can be made and a file opened for writing. The
  network answers the request of the \<open>n\<close>-th invocation of \<open>download_image\<close> by
  \<open>net n url\<close>. \<open>calls\<close> records every invocation of \<open>download_image\<close>, oldest
  first, with its two arguments and the truth value it returned.
\<close>

record world =
  files :: "string \<rightharpoonup> string"
  listing :: "string list"
  cwd :: string
  mkdir_ok :: "string \<Rightarrow> bool"
  writable :: "string \<Rightarrow> bool"
  net :: "nat \<Rightarrow> string \<Rightarrow> http_result"
  calls :: "(string \<times> string \<times> bool) list"

section \<open>MarkdownImageDownloader\<close>

record downloader =
  markdown_file :: string
  output_dir :: string
  base_url :: "string option"
  downloaded_images :: "string \<rightharpoonup> string"

text \<open>\<open>__init__\<close>: the fields are set and the output directory is made.\<close>

definition init :: "world \<Rightarrow> string \<Rightarrow> string \<Rightarrow> string option \<Rightarrow> error + downloader" where
  "init w mf od bu =
     (if mkdir_ok w od
      then Inr \<lparr>markdown_file = mf, output_dir = od, base_url = bu, downloaded_images = Map.empty\<rparr>
      else Inl (OSError od))"

definition extract_image_urls :: "downloader \<Rightarrow> world \<Rightarrow> error + string list" where
  "extract_image_urls d w =
     (case files w (markdown_file d) of
        None \<Rightarrow> Inl (FileNotFoundError (markdown_file d))
      | Some content \<Rightarrow>
          Inr (re_findall markdown_pattern content
               @ re_findall html_pattern content
               @ re_findall self_closing_pattern content))"

text \<open>
  \<open>download_image\<close>: everything that goes wrong inside is caught and gives \<open>False\<close>.
  The name under which the file is written is local to the function; only the truth
  value is returned.
\<close>

definition resolve :: "pylib \<Rightarrow> downloader \<Rightarrow> string \<Rightarrow> string option" where
  "resolve L d url =
     (case base_url d of
        None \<Rightarrow> Some url
      | Some b \<Rightarrow>
          if b \<noteq> [] \<and> \<not> (startswith url ''http://'' \<or> startswith url ''https://'')
          then urljoin L b url else Some url)"

definition svg_name :: "string \<Rightarrow> string \<Rightarrow> string \<Rightarrow> string" where
  "svg_name content_type url filename =
     (if str_in ''svg'' content_type \<or> endswith url ''.svg''
      then (if \<not> endswith filename ''.svg'' then filename @ ''.svg'' else filename)
      else filename)"

definition logged :: "world \<Rightarrow> string \<Rightarrow> string \<Rightarrow> bool \<Rightarrow> world" where
  "logged w url filename ok = w\<lparr>calls := calls w @ [(url, filename, ok)]\<rparr>"

definition download_image :: "pylib \<Rightarrow> downloader \<Rightarrow> world \<Rightarrow> string \<Rightarrow> string \<Rightarrow> bool \<times> world" where
  "download_image L d w url filename =
     (case resolve L d url of
        None \<Rightarrow> (False, logged w url filename False)
      | Some url' \<Rightarrow>
          (case net w (length (calls w)) url' of
             Failed \<Rightarrow> (False, logged w url filename False)
           | Response status content_type b \<Rightarrow>
               if 400 \<le> status \<and> status < 600 then (False, logged w url filename False)
               else
                 let filename' = svg_name content_type url' filename in
                 if \<not> writable w filename' then (False, logged w url filename False)
                 else (case b of
                         Complete bytes \<Rightarrow>
                           (True, logged (w\<lparr>files := (files w)(filename' \<mapsto> bytes)\<rparr>) url filename True)
                       | Broken bytes \<Rightarrow>
                           (False, logged (w\<lparr>files := (files w)(filename' \<mapsto> bytes)\<rparr>) url filename False))))"

definition generate_local_filename :: "pylib \<Rightarrow> downloader \<Rightarrow> string \<Rightarrow> nat \<Rightarrow> error + string" where
  "generate_local_filename L d url index =
     (case urlparse_path L url of
        None \<Rightarrow> Inl (ValueError url)
      | Some path \<Rightarrow>
          Inr (path_join (output_dir d)
                 (if path \<noteq> [] then
                    (let filename = basename path in
                     if CHR ''.'' \<notin> set filename
                     then ''image_'' @ take 8 (md5_hexdigest L url) @ ''.png''
                     else filename)
                  else ''image_'' @ str_of_nat index @ ''.png'')))"

text \<open>
  The loop of \<open>download_all_images\<close> over the numbered references. An exception that
  is not caught ends it, with the world as it is then.
\<close>

fun download_loop ::
  "pylib \<Rightarrow> downloader \<Rightarrow> world \<Rightarrow> (nat \<times> string) list \<Rightarrow> (error + downloader) \<times> world" where
  "download_loop L d w [] = (Inr d, w)"
| "download_loop L d w ((i, url) # rest) =
     (if all_space url then download_loop L d w rest
      else case generate_local_filename L d url i of
          Inl e \<Rightarrow> (Inl e, w)
        | Inr local_path \<Rightarrow>
            if downloaded_images d url \<noteq> None then download_loop L d w rest
            else (case download_image L d w url local_path of
                (True, w') \<Rightarrow>
                  download_loop L (d\<lparr>downloaded_images := (downloaded_images d)(url \<mapsto> local_path)\<rparr>) w' rest
              | (False, w') \<Rightarrow> download_loop L d w' rest))"

definition download_all_images :: "pylib \<Rightarrow> downloader \<Rightarrow> world \<Rightarrow> (error + downloader) \<times> world" where
  "download_all_images L d w =
     (case extract_image_urls d w of
        Inl e \<Rightarrow> (Inl e, w)
      | Inr image_urls \<Rightarrow> download_loop L d w (enumerate 0 image_urls))"

definition markdown_replacer :: "(string \<rightharpoonup> string) \<Rightarrow> string list \<Rightarrow> string" where
  "markdown_replacer recs m =
     (let alt_text = group 1 m; url = group 2 m in
      case recs url of
        Some local \<Rightarrow> ''!['' @ alt_text @ '']('' @ local @ '')''
      | None \<Rightarrow> group 0 m)"

definition html_replacer :: "(string \<rightharpoonup> string) \<Rightarrow> string list \<Rightarrow> string" where
  "html_replacer recs m =
     (let full_match = group 0 m; url = group 1 m in
      case recs url of
        Some local \<Rightarrow> str_replace url local full_match
      | None \<Rightarrow> full_match)"

text \<open>The text that \<open>update_markdown_with_local_paths\<close> writes, from the text it read.\<close>

definition rewrite :: "(string \<rightharpoonup> string) \<Rightarrow> string \<Rightarrow> string" where
  "rewrite recs content =
     re_sub html_sub_pattern (html_replacer recs)
       (re_sub markdown_sub_pattern (markdown_replacer recs) content)"

definition update_markdown_with_local_paths ::
  "downloader \<Rightarrow> world \<Rightarrow> string option \<Rightarrow> (error + string) \<times> world" where
  "update_markdown_with_local_paths d w output_file =
     (let out = (case output_file of
                   None \<Rightarrow> splitext_root (markdown_file d) @ ''_preprocessed.md''
                 | Some f \<Rightarrow> if f = [] then splitext_root (markdown_file d) @ ''_preprocessed.md'' else f) in
      case files w (markdown_file d) of
        None \<Rightarrow> (Inl (FileNotFoundError (markdown_file d)), w)
      | Some content \<Rightarrow>
          if \<not> writable w out then (Inl (OSError out), w)
          else (Inr out, w\<lparr>files := (files w)(out \<mapsto> rewrite (downloaded_images d) content)\<rparr>))"

section \<open>The batch driver\<close>

text \<open>
  \<open>glob.glob('source_markdowns/*.md')\<close>: the listed names that end in \<open>.md\<close> and do
  not start with a dot; \<open>find_markdown_files\<close> keeps the regular files among them, as
  absolute paths.
\<close>

definition glob_md :: "world \<Rightarrow> string list" where
  "glob_md w =
     map (\<lambda>n. ''source_markdowns/'' @ n)
       (filter (\<lambda>n. endswith n ''.md'' \<and> \<not> startswith n ''.'') (listing w))"

definition find_markdown_files :: "world \<Rightarrow> string list" where
  "find_markdown_files w =
     map (\<lambda>p. cwd w @ ''/'' @ p) (filter (\<lambda>p. files w p \<noteq> None) (glob_md w))"

text \<open>
  The loop of \<open>main\<close>. Nothing in it catches an exception: the first one that a
  document raises ends the run, and is returned with the world as it is then.
\<close>

fun main_loop :: "pylib \<Rightarrow> world \<Rightarrow> string list \<Rightarrow> error option \<times> world" where
  "main_loop L w [] = (None, w)"
| "main_loop L w (path # paths) =
     (let f_name = underscored (basename path);
          stem = before_dot f_name in
      case init w (''source_markdowns/'' @ f_name) (''images/'' @ stem) None of
        Inl e \<Rightarrow> (Some e, w)
      | Inr downloader \<Rightarrow>
          (case download_all_images L downloader w of
             (Inl e, w1) \<Rightarrow> (Some e, w1)
           | (Inr downloader1, w1) \<Rightarrow>
               (case update_markdown_with_local_paths downloader1 w1
                       (Some (''output/'' @ stem @ ''_preprocessed.md'')) of
                  (Inl e, w2) \<Rightarrow> (Some e, w2)
                | (Inr out, w2) \<Rightarrow> main_loop L w2 paths)))"

definition main :: "pylib \<Rightarrow> world \<Rightarrow> error option \<times> world" where
  "main L w = main_loop L w (find_markdown_files w)"

section \<open>Inputs for the examples\<close>

text \<open>
  An instance of the library parameters for the examples. \<open>plain_path\<close> is the path
  component of a reference of the form \<open>scheme://host/path\<close> without query, fragment
  or parameters, \<open>example_lib\<close> joins a base that ends with a slash and a plain relative
  reference, and its digest is the MD5 digest of \<open>http://x/assets/photo\<close>, the one
  string the examples hash.
\<close>

definition plain_path :: "string \<Rightarrow> string" where
  "plain_path url =
     dropWhile (\<lambda>c. c \<noteq> CHR ''/'') (drop 2 (dropWhile (\<lambda>c. c \<noteq> CHR ''/'') url))"

definition example_lib :: pylib where
  "example_lib =
     \<lparr>urlparse_path = (\<lambda>url. Some (plain_path url)),
      urljoin = (\<lambda>b url. Some (b @ url)),
      md5_hexdigest = (\<lambda>url. ''beb65741bb3b29ebee19a0101e409dfa'')\<rparr>"

text \<open>
  A world with the given files, listing and network, in which every directory can be
  made and every file written, before the first request.
\<close>

definition example_world ::
  "(string \<rightharpoonup> string) \<Rightarrow> string list \<Rightarrow> (nat \<Rightarrow> string \<Rightarrow> http_result) \<Rightarrow> world" where
  "example_world fs names n =
     \<lparr>files = fs, listing = names, cwd = ''/site'', mkdir_ok = (\<lambda>p. True),
      writable = (\<lambda>p. True), net = n, calls = []\<rparr>"

definition example_downloader :: downloader where
  "example_downloader =
     \<lparr>markdown_file = ''source_markdowns/doc.md'', output_dir = ''images/doc'',
      base_url = None, downloaded_images = Map.empty\<rparr>"

text \<open>A document that names one image twice, on a network where every request fails.\<close>

definition retry_world :: world where
  "retry_world =
     example_world
       [''source_markdowns/doc.md'' \<mapsto> ''![a](http://x/a.png) and ![b](http://x/a.png)'']
       [''doc.md''] (\<lambda>n url. Failed)"

text \<open>A document with one image, which the server sends as SVG.\<close>

definition svg_world :: world where
  "svg_world =
     example_world
       [''source_markdowns/doc.md'' \<mapsto> ''![logo](http://x/logo.png)'']
       [''doc.md''] (\<lambda>n url. Response 200 ''image/svg+xml'' (Complete ''<svg/>''))"

text \<open>Three documents without images; the name of the second has a space in it.\<close>

definition spaced_world :: world where
  "spaced_world =
     example_world
       [''source_markdowns/c.md'' \<mapsto> ''first'', ''source_markdowns/a b.md'' \<mapsto> ''second'',
        ''source_markdowns/d.md'' \<mapsto> ''third'']
       [''c.md'', ''a b.md'', ''d.md''] (\<lambda>n url. Failed)"


text \<open>A world whose one document has the given text, on a network where every request fails.\<close>

definition doc_world :: "string \<Rightarrow> world" where
  "doc_world content =
     example_world [''source_markdowns/doc.md'' \<mapsto> content] [''doc.md''] (\<lambda>n url. Failed)"

section \<open>Documents of inline links\<close>




section \<open>Notions for the proofs\<close>

text \<open>
  An item rejects a character when it cannot consume it. A pattern stops at a character
  when every item rejects it, except that the last item may be that very character: no
  match of such a pattern reaches beyond the first occurrence of the character.
\<close>

fun rejects :: "char \<Rightarrow> item \<Rightarrow> bool" where
  "rejects c Mark = True"
| "rejects c (One a) = (\<not> accepts a c)"
| "rejects c (Many a) = (\<not> accepts a c)"
| "rejects c (Few a) = (\<not> accepts a c)"

fun stops :: "char \<Rightarrow> item list \<Rightarrow> bool" where
  "stops c [] = True"
| "stops c [it] = (rejects c it \<or> it = One (Lit c))"
| "stops c (it # its) = (rejects c it \<and> stops c its)"


section \<open>What a match is made of\<close>

lemma push_concat: "concat (fst (push c m)) @ snd (push c m) = c # concat (fst m) @ snd m"
  by (cases "(c, m)" rule: push.cases) auto

lemma cut_concat: "concat (fst (cut m)) @ snd (cut m) = concat (fst m) @ snd m"
  by (cases m) auto

text \<open>The matched text followed by the rest is the text the match was tried on.\<close>

lemma rmatch_whole: "rmatch ps s = Some m \<Longrightarrow> concat (fst m) @ snd m = s"
proof (induction ps s arbitrary: m rule: rmatch.induct)
  case (1 s)
  then show ?case by auto
next
  case (2 ps s)
  then show ?case by (auto simp: cut_concat)
next
  case (4 a ps c cs)
  then show ?case by (auto split: if_splits simp: push_concat)
next
  case (6 a ps c cs)
  then show ?case by (auto split: if_splits option.splits simp: push_concat)
next
  case (8 a ps c cs)
  then show ?case by (auto split: if_splits option.splits simp: push_concat)
qed auto

lemma rmatch_concat: "rmatch ps s = Some (segs, r) \<Longrightarrow> concat segs @ r = s"
  using rmatch_whole by fastforce

lemma rmatch_empty_match:
  assumes "rmatch ps s = Some (segs, r)" and "\<not> length r < length s"
  shows "concat segs = []"
proof -
  have "length (concat segs) + length r = length s"
    using rmatch_concat[OF assms(1)] by (metis length_append)
  with assms(2) have "length (concat segs) = 0" by arith
  then show ?thesis by (simp only: length_0_conv)
qed

section \<open>Rewriting without records\<close>

lemma re_sub_concat: "re_sub ps concat s = s"
proof (induction ps "concat :: string list \<Rightarrow> string" s rule: re_sub.induct)
  case (1 ps)
  then show ?case by (auto split: option.splits dest: rmatch_concat)
next
  case (2 ps c cs)
  show ?case
  proof (cases "rmatch ps (c # cs)")
    case None
    with 2 show ?thesis by simp
  next
    case (Some m)
    obtain segs r where m: "m = (segs, r)" by (cases m)
    have w: "concat segs @ r = c # cs" using Some m rmatch_concat by blast
    show ?thesis
    proof (cases "length r < length (c # cs)")
      case True
      with 2(2)[OF Some[unfolded m] refl True] Some m w show ?thesis by simp
    next
      case False
      have "concat segs = []" using rmatch_empty_match Some m False by blast
      with 2(3)[OF Some[unfolded m] refl False] Some m False show ?thesis by simp
    qed
  qed
qed

lemma markdown_replacer_empty: "markdown_replacer Map.empty = concat"
  by (rule ext) (simp add: markdown_replacer_def group_def)

lemma html_replacer_empty: "html_replacer Map.empty = concat"
  by (rule ext) (simp add: html_replacer_def group_def)

text \<open>
  C6. With no download record at all, the rewriter returns every text as it is: each
  match of either pattern is replaced by itself.
\<close>

theorem rewrite_empty_records: "rewrite Map.empty content = content"
  by (simp add: rewrite_def markdown_replacer_empty html_replacer_empty re_sub_concat)

section \<open>Local file names\<close>

text \<open>
  C8. When the path of a reference ends in a segment that is not empty and has no dot,
  the local name is the output directory joined with \<open>image_\<close>, the first eight
  characters of the digest of the whole reference, and \<open>.png\<close>. The index plays no
  part, nor does the world: the name is the same whenever the reference is.
\<close>

theorem generate_local_filename_no_extension:
  assumes "urlparse_path L url = Some path" and "basename path \<noteq> []"
    and "CHR ''.'' \<notin> set (basename path)"
  shows "generate_local_filename L d url index =
           Inr (path_join (output_dir d) (''image_'' @ take 8 (md5_hexdigest L url) @ ''.png''))"
  using assms by (auto simp: generate_local_filename_def Let_def basename_def)

theorem generate_local_filename_no_extension_witness:
  "urlparse_path example_lib ''http://x/assets/photo'' = Some ''/assets/photo''
   \<and> basename ''/assets/photo'' \<noteq> [] \<and> CHR ''.'' \<notin> set (basename ''/assets/photo'')
   \<and> generate_local_filename example_lib example_downloader ''http://x/assets/photo'' 7
        = Inr ''images/doc/image_beb65741.png''"
proof -
  have a: "urlparse_path example_lib ''http://x/assets/photo'' = Some ''/assets/photo''"
    by code_simp
  have b: "basename ''/assets/photo'' \<noteq> []"
    by code_simp
  have c: "CHR ''.'' \<notin> set (basename ''/assets/photo'')"
    by code_simp
  have d: "path_join (output_dir example_downloader)
             (''image_'' @ take 8 (md5_hexdigest example_lib ''http://x/assets/photo'') @ ''.png'')
           = ''images/doc/image_beb65741.png''"
    by code_simp
  show ?thesis
    using generate_local_filename_no_extension [OF a b c, of example_downloader 7] a b c d
    by simp
qed

section \<open>Fetching\<close>

lemma svg_name_ends:
  "str_in ''svg'' ct \<or> endswith url ''.svg'' \<Longrightarrow> endswith (svg_name ct url fn) ''.svg''"
  by (auto simp: svg_name_def endswith_def suffix_def)

text \<open>
  C9. When a fetch succeeds and the content type of the response contains \<open>svg\<close>, or
  the resolved reference ends in \<open>.svg\<close>, the body is written to one file, and the
  path of that file ends in \<open>.svg\<close>, whatever the requested file name was.
\<close>

theorem svg_file_ends_in_svg:
  assumes "download_image L d w url filename = (True, w')"
    and "resolve L d url = Some url'"
    and "net w (length (calls w)) url' = Response status content_type b"
    and "str_in ''svg'' content_type \<or> endswith url' ''.svg''"
  shows "\<exists>p bytes. endswith p ''.svg'' \<and> b = Complete bytes \<and> files w' = (files w)(p \<mapsto> bytes)"
  using assms svg_name_ends[OF assms(4), of filename]
  by (auto simp: download_image_def Let_def logged_def split: if_splits body.splits)

theorem svg_file_ends_in_svg_witness:
  "files (snd (download_image example_lib example_downloader svg_world
                 ''http://x/logo.png'' ''images/doc/logo.png''))
     = (files svg_world)(''images/doc/logo.png.svg'' \<mapsto> ''<svg/>'')"
proof -
  have "fst (download_image example_lib example_downloader svg_world
               ''http://x/logo.png'' ''images/doc/logo.png'')"
    by code_simp
  then have a: "download_image example_lib example_downloader svg_world
             ''http://x/logo.png'' ''images/doc/logo.png''
           = (True, snd (download_image example_lib example_downloader svg_world
                           ''http://x/logo.png'' ''images/doc/logo.png''))"
    by (simp add: prod_eq_iff)
  have b: "resolve example_lib example_downloader ''http://x/logo.png'' = Some ''http://x/logo.png''"
    by code_simp
  have c: "net svg_world (length (calls svg_world)) ''http://x/logo.png''
           = Response 200 ''image/svg+xml'' (Complete ''<svg/>'')"
    by code_simp
  have d: "str_in ''svg'' ''image/svg+xml'' \<or> endswith ''http://x/logo.png'' ''.svg''"
    by code_simp
  from svg_file_ends_in_svg [OF a b c d]
  obtain p bytes where p: "endswith p ''.svg''" "Complete ''<svg/>'' = Complete bytes"
    and f: "files (snd (download_image example_lib example_downloader svg_world
                 ''http://x/logo.png'' ''images/doc/logo.png'')) = (files svg_world)(p \<mapsto> bytes)"
    by blast
  have g: "files (snd (download_image example_lib example_downloader svg_world
                 ''http://x/logo.png'' ''images/doc/logo.png'')) ''images/doc/logo.png.svg''
           = Some ''<svg/>''"
    by code_simp
  have h: "files svg_world ''images/doc/logo.png.svg'' = None"
    by code_simp
  from f g have "((files svg_world)(p \<mapsto> bytes)) ''images/doc/logo.png.svg'' = Some ''<svg/>''"
    by simp
  with h have "p = ''images/doc/logo.png.svg''"
    by (simp split: if_splits)
  with f p show ?thesis by simp
qed

section \<open>Where the program does otherwise\<close>

text \<open>
  C1. A reference is skipped only when it has a download record, and a failed fetch
  leaves none. The document of \<open>retry_world\<close> names \<open>http://x/a.png\<close> twice and no
  request succeeds: \<open>download_image\<close> is invoked for it twice in the one run.
\<close>

theorem failed_fetch_is_repeated:
  "calls (snd (main example_lib retry_world)) =
     [(''http://x/a.png'', ''images/doc/a.png'', False),
      (''http://x/a.png'', ''images/doc/a.png'', False)]"
  by code_simp

text \<open>
  C3. The replacer of the image tag replaces the reference wherever it stands in the
  matched tag. Here the \<open>alt\<close> attribute holds the reference too, and is rewritten with
  the \<open>src\<close> attribute.
\<close>

theorem tag_rewrite_changes_alt:
  \<open>rewrite [''http://x/b.jpg'' \<mapsto> ''images/doc/b.jpg'']
      ''<img src="http://x/b.jpg" alt="http://x/b.jpg">''
     = ''<img src="images/doc/b.jpg" alt="images/doc/b.jpg">''\<close>
  by code_simp

text \<open>
  C4. \<open>download_image\<close> returns a truth value only, and the record keeps the name that
  was requested. In \<open>svg_world\<close> the image is written to \<open>images/doc/logo.png.svg\<close>,
  while the record and the rewritten document name \<open>images/doc/logo.png\<close>, where there
  is no file.
\<close>

theorem svg_record_names_no_file:
  "files (snd (main example_lib svg_world)) ''images/doc/logo.png.svg'' = Some ''<svg/>''
   \<and> files (snd (main example_lib svg_world)) ''images/doc/logo.png'' = None
   \<and> files (snd (main example_lib svg_world)) ''output/doc_preprocessed.md''
       = Some ''![logo](images/doc/logo.png)''"
  by code_simp

section \<open>A document that cannot be read\<close>

lemma main_loop_append:
  "main_loop L w (ps1 @ ps2) =
     (case main_loop L w ps1 of (None, w') \<Rightarrow> main_loop L w' ps2 | (Some e, w') \<Rightarrow> (Some e, w'))"
  by (induction ps1 arbitrary: w) (auto simp: Let_def split: sum.splits prod.splits option.splits)

lemma main_loop_unreadable:
  assumes "mkdir_ok w (''images/'' @ before_dot (underscored (basename p)))"
    and "files w (''source_markdowns/'' @ underscored (basename p)) = None"
  shows "main_loop L w (p # ps) =
           (Some (FileNotFoundError (''source_markdowns/'' @ underscored (basename p))), w)"
  using assms by (simp add: Let_def init_def download_all_images_def extract_image_urls_def)

text \<open>
  C2, as the program has it. When the source of a document cannot be opened, the run
  ends there with that error: the documents listed before it have been processed, the
  world is as they left it, and the documents listed after it are not touched.
\<close>

theorem unreadable_document_ends_run:
  assumes "main_loop L w ps1 = (None, w1)"
    and "mkdir_ok w1 (''images/'' @ before_dot (underscored (basename p)))"
    and "files w1 (''source_markdowns/'' @ underscored (basename p)) = None"
  shows "main_loop L w (ps1 @ p # ps2) =
           (Some (FileNotFoundError (''source_markdowns/'' @ underscored (basename p))), w1)"
proof -
  have "main_loop L w (ps1 @ p # ps2) = main_loop L w1 (p # ps2)"
    by (simp only: main_loop_append assms(1) prod.case option.case)
  also have "\<dots> = (Some (FileNotFoundError (''source_markdowns/'' @ underscored (basename p))), w1)"
    by (rule main_loop_unreadable[OF assms(2,3)])
  finally show ?thesis .
qed

theorem unreadable_document_ends_run_witness:
  "fst (main_loop example_lib spaced_world [''/site/source_markdowns/c.md'']) = None
   \<and> main_loop example_lib spaced_world
         [''/site/source_markdowns/c.md'', ''/site/source_markdowns/a b.md'',
          ''/site/source_markdowns/d.md'']
       = (Some (FileNotFoundError ''source_markdowns/a_b.md''),
          snd (main_loop example_lib spaced_world [''/site/source_markdowns/c.md'']))"
proof -
  let ?w1 = "snd (main_loop example_lib spaced_world [''/site/source_markdowns/c.md''])"
  let ?p = "''/site/source_markdowns/a b.md''"
  have n: "fst (main_loop example_lib spaced_world [''/site/source_markdowns/c.md'']) = None"
    by code_simp
  then have a: "main_loop example_lib spaced_world [''/site/source_markdowns/c.md''] = (None, ?w1)"
    by (simp add: prod_eq_iff)
  have b: "mkdir_ok ?w1 (''images/'' @ before_dot (underscored (basename ?p)))"
    by code_simp
  have c: "files ?w1 (''source_markdowns/'' @ underscored (basename ?p)) = None"
    by code_simp
  have e: "''source_markdowns/'' @ underscored (basename ?p) = ''source_markdowns/a_b.md''"
    by code_simp
  show ?thesis
    using unreadable_document_ends_run [OF a b c, of "[''/site/source_markdowns/d.md'']"] n e
    by simp
qed

text \<open>
  C2 as stated fails. In \<open>spaced_world\<close> the second document is listed as \<open>a b.md\<close>
  and opened as \<open>a_b.md\<close>, which does not exist: the run ends with the error, after the
  first document and without an output for the third.
\<close>

theorem unreadable_document_counterexample:
  "fst (main example_lib spaced_world) = Some (FileNotFoundError ''source_markdowns/a_b.md'')
   \<and> files (snd (main example_lib spaced_world)) ''output/c_preprocessed.md'' = Some ''first''
   \<and> files (snd (main example_lib spaced_world)) ''output/d_preprocessed.md'' = None"
  by code_simp

section \<open>Rewriting a second time\<close>







section \<open>The download loop\<close>






text \<open>
  A reference that \<open>urlparse\<close> rejects is met outside the fetch: the exception leaves
  the loop, and the references after it are not fetched.
\<close>

lemma download_loop_unparsed:
  "\<not> all_space url \<Longrightarrow> urlparse_path L url = None
     \<Longrightarrow> download_loop L d w ((i, url) # rest) = (Inl (ValueError url), w)"
  by (simp add: generate_local_filename_def)





section \<open>Matching a tag\<close>

lemma fst_push_nonempty: "fst (push c m) \<noteq> []"
  by (cases "(c, m)" rule: push.cases) auto

lemma push_segs: "push c m = (segs, r) \<Longrightarrow> segs \<noteq> []"
  by (cases "(c, m)" rule: push.cases) auto

lemma fst_pushes_nonempty: "fst m \<noteq> [] \<Longrightarrow> fst (foldr push x m) \<noteq> []"
  by (induction x) (auto simp: fst_push_nonempty)

lemma rmatch_segs_nonempty: "rmatch ps s = Some m \<Longrightarrow> fst m \<noteq> []"
proof (induction ps s arbitrary: m rule: rmatch.induct)
  case (2 ps s)
  then show ?case by (cases "rmatch ps s") auto
qed (auto split: if_splits option.splits dest: push_segs)

lemma group1_push: "fst m \<noteq> [] \<Longrightarrow> group (Suc 0) (fst (push c m)) = group (Suc 0) (fst m)"
  by (cases "(c, m)" rule: push.cases) (auto simp: group_def)

lemma group1_pushes: "fst m \<noteq> [] \<Longrightarrow> group (Suc 0) (fst (foldr push x m)) = group (Suc 0) (fst m)"
  by (induction x) (auto simp: group1_push fst_pushes_nonempty)

lemma hd_push: "fst m \<noteq> [] \<Longrightarrow> hd (fst (push c m)) = c # hd (fst m)"
  by (cases "(c, m)" rule: push.cases) auto

lemma hd_pushes: "fst m \<noteq> [] \<Longrightarrow> hd (fst (foldr push x m)) = x @ hd (fst m)"
  by (induction x) (auto simp: hd_push fst_pushes_nonempty)

lemma group1_cut: "fst m \<noteq> [] \<Longrightarrow> group (Suc 0) (fst (cut m)) = hd (fst m)"
  by (cases m) (auto simp: group_def hd_conv_nth)

lemma rmatch_lit:
  "rmatch (lit t @ ps) (t @ s) = map_option (\<lambda>m. foldr push t m) (rmatch ps s)"
  by (induction t) (auto simp: lit_def option.map_comp comp_def option.map_ident)

lemma rmatch_lit_None: "\<not> prefix t s \<Longrightarrow> rmatch (lit t @ ps) s = None"
proof (induction t arbitrary: s)
  case Nil
  then show ?case by simp
next
  case (Cons c t)
  then show ?case by (cases s) (auto simp: lit_def)
qed

lemma many_extend:
  "list_all (accepts a) x \<Longrightarrow> rmatch (Many a # ps) s = Some m
     \<Longrightarrow> rmatch (Many a # ps) (x @ s) = Some (foldr push x m)"
  by (induction x) auto

lemma many_none:
  "(\<And>k. k \<le> length (takeWhile (accepts a) s) \<Longrightarrow> rmatch ps (drop k s) = None)
     \<Longrightarrow> rmatch (Many a # ps) s = None"
proof (induction s)
  case Nil
  then show ?case by simp
next
  case (Cons c cs)
  have here: "rmatch ps (c # cs) = None" using Cons.prems[of 0] by simp
  show ?case
  proof (cases "accepts a c")
    case True
    have "rmatch (Many a # ps) cs = None"
    proof (rule Cons.IH)
      fix k assume "k \<le> length (takeWhile (accepts a) cs)"
      then show "rmatch ps (drop k cs) = None" using Cons.prems[of "Suc k"] True by simp
    qed
    with here True show ?thesis by simp
  next
    case False
    with here show ?thesis by simp
  qed
qed

lemma stops_tl: "stops c (it # its) \<Longrightarrow> stops c its"
  by (cases its) auto

lemma stops_hd: "stops c (it # its) \<Longrightarrow> its \<noteq> [] \<Longrightarrow> rejects c it"
  by (cases its) auto

lemma length_concat_push: "length (concat (fst (push c m))) = Suc (length (concat (fst m)))"
  by (cases "(c, m)" rule: push.cases) auto

lemma rmatch_stops:
  "rmatch ps s = Some m \<Longrightarrow> stops c ps
     \<Longrightarrow> length (concat (fst m)) \<le> Suc (length (takeWhile (\<lambda>x. x \<noteq> c) s))"
proof (induction ps s arbitrary: m rule: rmatch.induct)
  case (1 s)
  then show ?case by auto
next
  case (2 ps s)
  then obtain m' where m': "rmatch ps s = Some m'" "m = cut m'" by (cases "rmatch ps s") auto
  have "stops c ps" using 2(3) stops_tl by blast
  with 2(1)[OF m'(1)] m'(2) show ?case by (cases m') auto
next
  case (3 a ps)
  then show ?case by simp
next
  case (4 a ps d cs)
  then obtain m' where acc: "accepts a d" and m': "rmatch ps cs = Some m'" "m = push d m'"
    by (auto split: if_splits)
  show ?case
  proof (cases "ps = []")
    case True
    with m' have "length (concat (fst m)) = 1" by (auto)
    then show ?thesis by simp
  next
    case False
    then have "rejects c (One a)" using 4(3) stops_hd by blast
    with acc have dc: "d \<noteq> c" by auto
    have "length (concat (fst m')) \<le> Suc (length (takeWhile (\<lambda>x. x \<noteq> c) cs))"
      using 4(1)[OF acc m'(1)] 4(3) stops_tl by blast
    with dc m'(2) show ?thesis by (simp add: length_concat_push)
  qed
next
  case (5 a ps)
  then show ?case using stops_tl by (metis rmatch.simps(5))
next
  case (6 a ps d cs)
  show ?case
  proof (cases "accepts a d \<and> rmatch (Many a # ps) cs \<noteq> None")
    case True
    then obtain m' where m': "rmatch (Many a # ps) cs = Some m'" by auto
    with 6(4) True have m: "m = push d m'" by simp
    have rj: "rejects c (Many a)" using 6(5) by (cases ps) auto
    with True have dc: "d \<noteq> c" by auto
    have "length (concat (fst m')) \<le> Suc (length (takeWhile (\<lambda>x. x \<noteq> c) cs))"
      using 6(1)[OF _ m'] True 6(5) by simp
    with dc m show ?thesis by (simp add: length_concat_push)
  next
    case False
    then have r: "rmatch ps (d # cs) = Some m" using 6(4) by (auto split: if_splits option.splits)
    have st: "stops c ps" using 6(5) stops_tl by blast
    show ?thesis
    proof (cases "accepts a d")
      case True
      with False have "rmatch (Many a # ps) cs = None" by blast
      from 6(2)[OF True this r st] show ?thesis .
    next
      case nf: False
      from 6(3)[OF nf r st] show ?thesis .
    qed
  qed
next
  case (7 a ps)
  then show ?case using stops_tl by (metis rmatch.simps(7))
next
  case (8 a ps d cs)
  show ?case
  proof (cases "rmatch ps (d # cs)")
    case (Some m0)
    with 8(3) have "m = m0" by simp
    with 8(1)[OF Some] 8(4) stops_tl show ?thesis by blast
  next
    case None
    with 8(3) obtain m' where acc: "accepts a d" and m': "rmatch (Few a # ps) cs = Some m'" "m = push d m'"
      by (auto split: if_splits)
    have rj: "rejects c (Few a)" using 8(4) by (cases ps) auto
    with acc have dc: "d \<noteq> c" by auto
    have "length (concat (fst m')) \<le> Suc (length (takeWhile (\<lambda>x. x \<noteq> c) cs))"
      using 8(2)[OF None acc m'(1)] 8(4) by simp
    with dc m'(2) show ?thesis by (simp add: length_concat_push)
  qed
qed

lemma prefix_before:
  assumes "prefix t (y @ c # z)" and "c \<notin> set t"
  shows "prefix t y"
proof -
  from assms(1) consider "prefix t y" | us where "t = y @ us" "prefix us (c # z)"
    by (auto simp: prefix_append)
  then show ?thesis
  proof cases
    case 1
    then show ?thesis .
  next
    case 2
    with assms(2) have "us = []" by (cases us) auto
    with 2 show ?thesis by simp
  qed
qed

lemma sublist_front:
  "sublist (x # xs) (c # ys) \<Longrightarrow> x \<noteq> c \<Longrightarrow> sublist (x # xs) ys"
  by (auto simp: sublist_Cons_right)

lemma sublist_back:
  assumes "sublist (xs @ [x]) (ys @ [c])" and "x \<noteq> c"
  shows "sublist (xs @ [x]) ys"
proof -
  have "sublist (rev (xs @ [x])) (rev (ys @ [c]))" using assms(1) by (simp only: sublist_rev)
  then have "sublist (x # rev xs) (c # rev ys)" by simp
  then have "sublist (x # rev xs) (rev ys)" using assms(2) by (rule sublist_front)
  then have "sublist (rev (xs @ [x])) (rev ys)" by simp
  then show ?thesis by (simp only: sublist_rev)
qed

lemma prefix_in_run:
  assumes "\<forall>x \<in> set Y. P x" and "\<not> P c" and "c \<notin> set t"
    and "k \<le> length (takeWhile P (Y @ c # post))"
    and "prefix t (drop k (Y @ c # post))"
  shows "sublist t Y"
proof -
  have tw: "takeWhile P (Y @ c # post) = Y"
    using assms(1,2) by (simp add: takeWhile_append2)
  have k: "k \<le> length Y" using assms(4) unfolding tw .
  then have "drop k (Y @ c # post) = drop k Y @ c # post" by simp
  with assms(5) have "prefix t (drop k Y @ c # post)" by simp
  then have "prefix t (drop k Y)" using assms(3) by (rule prefix_before)
  then have "sublist t (drop k Y)" by (rule prefix_imp_sublist)
  then show ?thesis using sublist_drop sublist_order.order_trans by blast
qed

text \<open>After the attribute \<open>src\<close> of the tag, no \<open>src="\<close> begins before the tag ends.\<close>

lemma no_later_src:
  assumes "CHR ''>'' \<notin> set u" and "CHR ''>'' \<notin> set b"
    and "\<not> str_in (''src='' @ [dq]) (u @ [dq] @ b)"
    and "k \<le> length (takeWhile (accepts (NoneOf ''>'')) ((''rc='' @ dq # u @ dq # b @ ''/'') @ CHR ''>'' # post))"
  shows "\<not> prefix (''src='' @ [dq]) (drop k ((''rc='' @ dq # u @ dq # b @ ''/'') @ CHR ''>'' # post))"
proof
  let ?Y = "''rc='' @ dq # u @ dq # b @ ''/''"
  let ?sq = "''src='' @ [dq]"
  assume pre: "prefix ?sq (drop k (?Y @ CHR ''>'' # post))"
  have allY: "\<forall>x \<in> set ?Y. accepts (NoneOf ''>'') x"
    using assms(1,2) by (simp add: dq_def ball_Un) blast
  have nacc: "\<not> accepts (NoneOf ''>'') (CHR ''>'')" by simp
  have nin: "CHR ''>'' \<notin> set ?sq" by (simp add: dq_def)
  have "sublist ?sq ?Y"
    using prefix_in_run[OF allY nacc nin assms(4) pre] .
  then have s1: "sublist (CHR ''s'' # ''rc='' @ [dq]) (CHR ''r'' # CHR ''c'' # CHR ''='' # dq # (u @ dq # b) @ ''/'')"
    by simp
  have "sublist (CHR ''s'' # ''rc='' @ [dq]) (CHR ''c'' # CHR ''='' # dq # (u @ dq # b) @ ''/'')"
    using s1 by (rule sublist_front) simp
  then have "sublist (CHR ''s'' # ''rc='' @ [dq]) (CHR ''='' # dq # (u @ dq # b) @ ''/'')"
    by (rule sublist_front) simp
  then have "sublist (CHR ''s'' # ''rc='' @ [dq]) (dq # (u @ dq # b) @ ''/'')"
    by (rule sublist_front) simp
  then have "sublist (CHR ''s'' # ''rc='' @ [dq]) ((u @ dq # b) @ ''/'')"
    by (rule sublist_front) (simp add: dq_def)
  then have "sublist ((''src='') @ [dq]) ((u @ dq # b) @ [CHR ''/''])" by simp
  then have "sublist (''src='' @ [dq]) (u @ dq # b)" by (rule sublist_back) (simp add: dq_def)
  with assms(3) show False by (simp add: str_in_def)
qed

lemma many_last:
  assumes "list_all (accepts a) W" and "accepts a s0" and "rmatch ps (s0 # T) = Some m"
    and "\<And>k. k \<le> length (takeWhile (accepts a) T) \<Longrightarrow> rmatch ps (drop k T) = None"
  shows "rmatch (Many a # ps) (W @ s0 # T) = Some (foldr push W m)"
proof -
  have "rmatch (Many a # ps) T = None" using assms(4) by (rule many_none)
  with assms(2,3) have "rmatch (Many a # ps) (s0 # T) = Some m" by simp
  with assms(1) show ?thesis by (rule many_extend)
qed

text \<open>The value of the attribute, read up to its closing quote.\<close>

lemma value_match:
  assumes "u \<noteq> []" and "dq \<notin> set u" and "CHR ''>'' \<notin> set u"
    and "rmatch tp (dq # rest) = Some mt" and "hd (fst mt) = []"
  shows "\<exists>m. rmatch (lit t @ Mark # plus (NoneOf [dq, CHR ''>'']) @ tp) (t @ u @ dq # rest) = Some m
             \<and> group (Suc 0) (fst m) = u"
proof -
  obtain u0 u' where u: "u = u0 # u'" using assms(1) by (cases u) auto
  let ?Q = "NoneOf [dq, CHR ''>'']"
  have acc0: "accepts ?Q u0" using assms(2,3) u by auto
  have acc: "list_all (accepts ?Q) u'" using assms(2,3) u by (auto simp: list_all_iff)
  have nq: "\<not> accepts ?Q dq" by simp
  have "rmatch (Many ?Q # tp) (dq # rest) = Some mt" using nq assms(4) by simp
  with acc have many: "rmatch (Many ?Q # tp) (u' @ dq # rest) = Some (foldr push u' mt)"
    by (rule many_extend)
  have ne: "fst mt \<noteq> []" using assms(4) by (rule rmatch_segs_nonempty)
  let ?m1 = "push u0 (foldr push u' mt)"
  have v: "rmatch (Mark # plus ?Q @ tp) (u @ dq # rest) = Some (cut ?m1)"
    using many acc0 u by (simp add: plus_def)
  have ne1: "fst ?m1 \<noteq> []" by (rule fst_push_nonempty)
  have g: "group (Suc 0) (fst (cut ?m1)) = u"
    using group1_cut[OF ne1] hd_push[OF fst_pushes_nonempty[OF ne]] hd_pushes[OF ne] assms(5) u
    by simp
  have nec: "fst (cut ?m1) \<noteq> []" by (cases ?m1) simp
  have "rmatch (lit t @ Mark # plus ?Q @ tp) (t @ u @ dq # rest) = Some (foldr push t (cut ?m1))"
    unfolding rmatch_lit v by simp
  moreover have "group (Suc 0) (fst (foldr push t (cut ?m1))) = u"
    using group1_pushes[OF nec] g by simp
  ultimately show ?thesis by blast
qed


text \<open>
  The tag pattern on a tag: the greedy \<open>[^>]+\<close> runs to the last \<open>src="\<close>, and the
  group is the value that follows it.
\<close>

lemma tag_match:
  assumes "W \<noteq> []" and "CHR ''>'' \<notin> set W"
    and "u \<noteq> []" and "dq \<notin> set u" and "CHR ''>'' \<notin> set u" and "CHR ''>'' \<notin> set b"
    and "\<not> str_in (''src='' @ [dq]) (u @ [dq] @ b)"
    and "rmatch tp (dq # b @ ''/>'' @ post) = Some mt" and "hd (fst mt) = []"
  shows "\<exists>m. rmatch (lit ''<img'' @ plus (NoneOf ''>'') @ lit (''src='' @ [dq]) @ Mark
                       # plus (NoneOf [dq, CHR ''>'']) @ tp)
               (''<img'' @ W @ (''src='' @ [dq]) @ u @ dq # b @ ''/>'' @ post) = Some m
             \<and> group (Suc 0) (fst m) = u"
proof -
  let ?N = "NoneOf ''>''"
  let ?R = "lit (''src='' @ [dq]) @ Mark # plus (NoneOf [dq, CHR ''>'']) @ tp"
  let ?T = "(''rc='' @ dq # u @ dq # b @ ''/'') @ CHR ''>'' # post"
  obtain mR where mR: "rmatch ?R ((''src='' @ [dq]) @ u @ dq # b @ ''/>'' @ post) = Some mR"
    and g: "group (Suc 0) (fst mR) = u"
    using value_match[OF assms(3,4,5,8,9)] by blast
  have T: "(''src='' @ [dq]) @ u @ dq # b @ ''/>'' @ post = CHR ''s'' # ?T" by simp
  have here: "rmatch ?R (CHR ''s'' # ?T) = Some mR" using mR unfolding T .
  have deeper: "\<And>k. k \<le> length (takeWhile (accepts ?N) ?T) \<Longrightarrow> rmatch ?R (drop k ?T) = None"
    using no_later_src[OF assms(5,6,7)] by (intro rmatch_lit_None) blast
  obtain w0 W' where W: "W = w0 # W'" using assms(1) by (cases W) auto
  have acc0: "accepts ?N w0" using assms(2) W by auto
  have acc: "list_all (accepts ?N) W'" using assms(2) W by (auto simp: list_all_iff)
  have accs: "accepts ?N (CHR ''s'')" by simp
  have many: "rmatch (Many ?N # ?R) (W' @ CHR ''s'' # ?T) = Some (foldr push W' mR)"
    using many_last[OF acc accs here deeper] .
  let ?m1 = "push w0 (foldr push W' mR)"
  have one: "rmatch (plus ?N @ ?R) (W @ CHR ''s'' # ?T) = Some ?m1"
    using many acc0 unfolding W by (simp add: plus_def)
  have whole: "rmatch (lit ''<img'' @ plus ?N @ ?R) (''<img'' @ W @ CHR ''s'' # ?T)
                 = Some (foldr push ''<img'' ?m1)"
    unfolding rmatch_lit one by simp
  have ne: "fst mR \<noteq> []" using mR by (rule rmatch_segs_nonempty)
  have ne1: "fst ?m1 \<noteq> []" by (rule fst_push_nonempty)
  have "group (Suc 0) (fst (foldr push ''<img'' ?m1)) = group (Suc 0) (fst ?m1)"
    using ne1 by (rule group1_pushes)
  also have "\<dots> = group (Suc 0) (fst (foldr push W' mR))"
    using fst_pushes_nonempty[OF ne] by (rule group1_push)
  also have "\<dots> = u" using group1_pushes[OF ne] g by simp
  finally have "group (Suc 0) (fst (foldr push ''<img'' ?m1)) = u" .
  with whole show ?thesis unfolding T by blast
qed

lemma tail_html:
  "rmatch [Mark, One (Lit dq)] (dq # rest) = Some ([[], [dq]], rest)"
  by simp

lemma hd_cut: "hd (fst (cut m)) = []"
  by (cases m) simp

lemma tail_self_closing:
  assumes "CHR ''>'' \<notin> set b"
  shows "\<exists>mt. rmatch ([Mark, One (Lit dq), Many (NoneOf ''>'')] @ lit ''/>'') (dq # b @ ''/>'' @ post) = Some mt
              \<and> hd (fst mt) = []"
proof -
  let ?N = "NoneOf ''>''"
  have acc: "list_all (accepts ?N) b" using assms by (auto simp: list_all_iff)
  have "rmatch (Many ?N # lit ''/>'') (''/>'' @ post) = Some ([''/>''], post)"
    by (simp add: lit_def)
  with acc have "rmatch (Many ?N # lit ''/>'') (b @ ''/>'' @ post) = Some (foldr push b ([''/>''], post))"
    by (rule many_extend)
  then show ?thesis by (simp add: hd_cut)
qed

lemma html_pattern_shape:
  "html_pattern = lit ''<img'' @ plus (NoneOf ''>'') @ lit (''src='' @ [dq]) @ Mark
                    # plus (NoneOf [dq, CHR ''>'']) @ [Mark, One (Lit dq)]"
  by (simp add: html_pattern_def lit_def)

lemma self_closing_pattern_shape:
  "self_closing_pattern = lit ''<img'' @ plus (NoneOf ''>'') @ lit (''src='' @ [dq]) @ Mark
                    # plus (NoneOf [dq, CHR ''>'']) @ ([Mark, One (Lit dq), Many (NoneOf ''>'')] @ lit ''/>'')"
  by (simp add: self_closing_pattern_def lit_def)

lemma stops_html: "stops (CHR ''>'') html_pattern"
  by (simp add: html_pattern_def lit_def plus_def dq_def)

lemma stops_self_closing: "stops (CHR ''>'') self_closing_pattern"
  by (simp add: self_closing_pattern_def lit_def plus_def dq_def)


lemma no_straddle:
  assumes "prefix ''<img'' (pre @ ''<img'' @ t)"
  shows "pre = [] \<or> prefix ''<img'' pre"
proof (cases pre)
  case Nil
  then show ?thesis by simp
next
  case (Cons c1 p1)
  show ?thesis
  proof (cases p1)
    case Nil
    with Cons assms show ?thesis by simp
  next
    case (Cons c2 p2)
    note p1 = this
    show ?thesis
    proof (cases p2)
      case Nil
      with \<open>pre = c1 # p1\<close> p1 assms show ?thesis by simp
    next
      case (Cons c3 p3)
      note p2 = this
      show ?thesis
      proof (cases p3)
        case Nil
        with \<open>pre = c1 # p1\<close> p1 p2 assms show ?thesis by simp
      next
        case (Cons c4 p4)
        with \<open>pre = c1 # p1\<close> p1 p2 assms show ?thesis by simp
      qed
    qed
  qed
qed

text \<open>
  A match of the tag pattern that begins before the tag, with no \<open>>\<close> in between,
  runs into the tag and takes its value.
\<close>

lemma tag_hit:
  assumes "a \<noteq> []" and "CHR ''>'' \<notin> set a"
    and "u \<noteq> []" and "dq \<notin> set u" and "CHR ''>'' \<notin> set u" and "CHR ''>'' \<notin> set b"
    and "\<not> str_in (''src='' @ [dq]) (u @ [dq] @ b)"
    and "rmatch tp (dq # b @ ''/>'' @ post) = Some mt" and "hd (fst mt) = []"
    and "CHR ''>'' \<notin> set pre"
    and "prefix ''<img'' (pre @ ''<img'' @ a @ (''src='' @ [dq]) @ u @ dq # b @ ''/>'' @ post)"
  shows "\<exists>m. rmatch (lit ''<img'' @ plus (NoneOf ''>'') @ lit (''src='' @ [dq]) @ Mark
                       # plus (NoneOf [dq, CHR ''>'']) @ tp)
               (pre @ ''<img'' @ a @ (''src='' @ [dq]) @ u @ dq # b @ ''/>'' @ post) = Some m
             \<and> group (Suc 0) (fst m) = u"
proof -
  from no_straddle[OF assms(11)] consider "pre = []" | q where "pre = ''<img'' @ q"
    by (auto simp: prefix_def)
  then show ?thesis
  proof cases
    case 1
    show ?thesis
      using tag_match[OF assms(1,2,3,4,5,6,7,8,9)] unfolding 1 by simp
  next
    case 2
    have ne: "q @ ''<img'' @ a \<noteq> []" using assms(1) by simp
    have gt: "CHR ''>'' \<notin> set (q @ ''<img'' @ a)" using assms(2,10) 2 by simp
    show ?thesis
      using tag_match[OF ne gt assms(3,4,5,6,7,8,9)] unfolding 2 by simp
  qed
qed

lemma takeWhile_shorter: "c \<in> set xs \<Longrightarrow> length (takeWhile (\<lambda>x. x \<noteq> c) xs) < length xs"
  by (induction xs) auto

lemma scan_finds:
  assumes st: "stops c P" and tne: "t \<noteq> []"
    and hit: "\<And>pre m. c \<notin> set pre \<Longrightarrow> rmatch P (pre @ t) = Some m \<Longrightarrow> group (Suc 0) (fst m) = u"
    and start: "rmatch P t \<noteq> None"
  shows "u \<in> set (re_findall P (pre @ t))"
proof (induction "length pre" arbitrary: pre rule: less_induct)
  case less
  obtain c0 cs where s: "pre @ t = c0 # cs" using tne by (cases "pre @ t") auto
  show ?case
  proof (cases "rmatch P (pre @ t)")
    case None
    then have "pre \<noteq> []" using start by auto
    then obtain p' where pre: "pre = c0 # p'" and cs: "cs = p' @ t" using s by (cases pre) auto
    have ih: "u \<in> set (re_findall P (p' @ t))" using less[of p'] pre by simp
    have "re_finditer P (pre @ t) = re_finditer P (p' @ t)"
      using None unfolding s cs[symmetric] by simp
    with ih show ?thesis by (simp add: re_findall_def)
  next
    case (Some m)
    obtain segs r where m: "m = (segs, r)" by (cases m)
    have first: "\<exists>rest. re_finditer P (pre @ t) = segs # rest"
      using Some m unfolding s by simp
    show ?thesis
    proof (cases "c \<in> set pre")
      case False
      then have "group (Suc 0) segs = u" using hit[OF False Some] m by simp
      with first show ?thesis by (auto simp: re_findall_def)
    next
      case True
      then obtain p' where pre: "pre = c0 # p'" and cs: "cs = p' @ t" using s by (cases pre) auto
      define n where "n = length (concat segs)"
      have b: "n \<le> Suc (length (takeWhile (\<lambda>x. x \<noteq> c) (pre @ t)))"
        using rmatch_stops[OF Some st] m unfolding n_def by simp
      have tw: "takeWhile (\<lambda>x. x \<noteq> c) (pre @ t) = takeWhile (\<lambda>x. x \<noteq> c) pre"
        using True by (simp add: takeWhile_append1)
      have lt: "length (takeWhile (\<lambda>x. x \<noteq> c) pre) < length pre"
        using True by (rule takeWhile_shorter)
      have n: "n \<le> length pre" using b lt unfolding tw by simp
      have whole: "concat segs @ r = pre @ t" using Some m rmatch_concat by blast
      then have "r = drop n (pre @ t)" unfolding n_def by (simp add: append_eq_conv_conj)
      with n have r: "r = drop n pre @ t" by simp
      have len: "n + length r = length pre + length t"
        using whole unfolding n_def by (metis length_append)
      show ?thesis
      proof (cases "length r < length (c0 # cs)")
        case lr: True
        have "length (c0 # cs) = length pre + length t" using s by (metis length_append)
        with lr len have "0 < n" by simp
        with n have "length (drop n pre) < length pre" by simp
        then have ih: "u \<in> set (re_findall P (drop n pre @ t))"
          by (rule less)
        have "re_finditer P (pre @ t) = segs # re_finditer P r"
          using Some m lr unfolding s by simp
        with ih r show ?thesis by (simp add: re_findall_def)
      next
        case lr: False
        have ih: "u \<in> set (re_findall P (p' @ t))" using less[of p'] pre by simp
        have "re_finditer P (pre @ t) = segs # re_finditer P (p' @ t)"
          using Some m lr unfolding s cs[symmetric] by simp
        with ih show ?thesis by (simp add: re_findall_def)
      qed
    qed
  qed
qed


lemma tag_found:
  assumes "a \<noteq> []" and "CHR ''>'' \<notin> set a"
    and "u \<noteq> []" and "dq \<notin> set u" and "CHR ''>'' \<notin> set u" and "CHR ''>'' \<notin> set b"
    and "\<not> str_in (''src='' @ [dq]) (u @ [dq] @ b)"
    and "rmatch tp (dq # b @ ''/>'' @ post) = Some mt" and "hd (fst mt) = []"
    and "P = lit ''<img'' @ plus (NoneOf ''>'') @ lit (''src='' @ [dq]) @ Mark
               # plus (NoneOf [dq, CHR ''>'']) @ tp"
    and "stops (CHR ''>'') P"
  shows "u \<in> set (re_findall P (pre @ ''<img'' @ a @ (''src='' @ [dq]) @ u @ dq # b @ ''/>'' @ post))"
proof (rule scan_finds[OF assms(11)])
  let ?t = "''<img'' @ a @ (''src='' @ [dq]) @ u @ dq # b @ ''/>'' @ post"
  show "?t \<noteq> []" by simp
  show "rmatch P ?t \<noteq> None"
    using tag_hit[OF assms(1,2,3,4,5,6,7,8,9), of "[]"] unfolding assms(10) by auto
  fix pre m
  assume gt: "CHR ''>'' \<notin> set pre" and m: "rmatch P (pre @ ?t) = Some m"
  have "prefix ''<img'' (pre @ ?t)"
  proof (rule ccontr)
    assume "\<not> prefix ''<img'' (pre @ ?t)"
    then have "rmatch P (pre @ ?t) = None" unfolding assms(10) by (rule rmatch_lit_None)
    with m show False by simp
  qed
  from tag_hit[OF assms(1,2,3,4,5,6,7,8,9) gt this] m
  show "group (Suc 0) (fst m) = u" unfolding assms(10) by auto
qed

text \<open>
  C10, as the program has it. Take a text that contains a self-closing tag
  \<open><img\<close> \<open>a\<close> \<open>src="\<close>\<open>u\<close>\<open>"\<close> \<open>b\<close> \<open>/>\<close> in which \<open>a\<close> is not empty, neither \<open>a\<close>, \<open>u\<close> nor
  \<open>b\<close> has a \<open>>\<close>, \<open>u\<close> is not empty and has no quote, and no \<open>src="\<close> begins in
  \<open>u\<close> or after it in the tag. Whatever stands before and after the tag, the general
  tag pattern finds \<open>u\<close>, the self-closing pattern finds \<open>u\<close>, and the extractor returns
  \<open>u\<close> at least twice.
\<close>

theorem self_closing_tag_extracted_twice:
  assumes \<open>files w (markdown_file d)
             = Some (pre @ ''<img'' @ a @ ''src="'' @ u @ ''"'' @ b @ ''/>'' @ post)\<close>
    and \<open>a \<noteq> []\<close> and \<open>CHR ''>'' \<notin> set a\<close>
    and \<open>u \<noteq> []\<close> and \<open>CHR ''"'' \<notin> set u\<close> and \<open>CHR ''>'' \<notin> set u\<close>
    and \<open>CHR ''>'' \<notin> set b\<close>
    and \<open>\<not> str_in ''src="'' (u @ ''"'' @ b)\<close>
  shows \<open>\<exists>urls. extract_image_urls d w = Inr urls
           \<and> u \<in> set (re_findall html_pattern
                         (pre @ ''<img'' @ a @ ''src="'' @ u @ ''"'' @ b @ ''/>'' @ post))
           \<and> u \<in> set (re_findall self_closing_pattern
                         (pre @ ''<img'' @ a @ ''src="'' @ u @ ''"'' @ b @ ''/>'' @ post))
           \<and> 2 \<le> count_list urls u\<close>
proof -
  let ?s = "pre @ ''<img'' @ a @ (''src='' @ [dq]) @ u @ dq # b @ ''/>'' @ post"
  have shape: \<open>pre @ ''<img'' @ a @ ''src="'' @ u @ ''"'' @ b @ ''/>'' @ post = ?s\<close>
    by (simp add: dq_def)
  have q: "dq \<notin> set u" using assms(5) by (simp add: dq_def)
  have ns: "\<not> str_in (''src='' @ [dq]) (u @ [dq] @ b)" using assms(8) by (simp add: dq_def)
  have h: "u \<in> set (re_findall html_pattern ?s)"
    using tag_found[OF assms(2,3,4) q assms(6,7) ns tail_html _ html_pattern_shape stops_html]
    by simp
  obtain mt where mt: "rmatch ([Mark, One (Lit dq), Many (NoneOf ''>'')] @ lit ''/>'') (dq # b @ ''/>'' @ post) = Some mt"
      and hd: "hd (fst mt) = []"
    using tail_self_closing[OF assms(7)] by blast
  have c: "u \<in> set (re_findall self_closing_pattern ?s)"
    using tag_found[OF assms(2,3,4) q assms(6,7) ns mt hd self_closing_pattern_shape stops_self_closing] .
  have ex: "extract_image_urls d w
              = Inr (re_findall markdown_pattern ?s @ re_findall html_pattern ?s
                       @ re_findall self_closing_pattern ?s)"
    using assms(1) unfolding shape by (simp add: extract_image_urls_def)
  have "0 < count_list (re_findall html_pattern ?s) u" using h count_list_0_iff by fastforce
  moreover have "0 < count_list (re_findall self_closing_pattern ?s) u"
    using c count_list_0_iff by fastforce
  ultimately have "2 \<le> count_list (re_findall markdown_pattern ?s @ re_findall html_pattern ?s
                       @ re_findall self_closing_pattern ?s) u"
    by simp
  with ex h c show ?thesis unfolding shape by blast
qed

theorem self_closing_tag_extracted_twice_witness:
  \<open>extract_image_urls example_downloader (doc_world ''<img src="http://x/b.jpg" />'')
     = Inr [''http://x/b.jpg'', ''http://x/b.jpg'']
   \<and> 2 \<le> count_list [''http://x/b.jpg'', ''http://x/b.jpg''] ''http://x/b.jpg''\<close>
proof -
  let ?w = \<open>doc_world ''<img src="http://x/b.jpg" />''\<close>
  have f: \<open>files ?w (markdown_file example_downloader)
             = Some ([] @ ''<img'' @ '' '' @ ''src="'' @ ''http://x/b.jpg'' @ ''"'' @ '' '' @ ''/>'' @ [])\<close>
    by code_simp
  have a: \<open>'' '' \<noteq> []\<close> \<open>CHR ''>'' \<notin> set '' ''\<close>
    by simp_all
  have u: \<open>''http://x/b.jpg'' \<noteq> []\<close> \<open>CHR ''"'' \<notin> set ''http://x/b.jpg''\<close>
      \<open>CHR ''>'' \<notin> set ''http://x/b.jpg''\<close>
    by simp_all
  have n: \<open>\<not> str_in ''src="'' (''http://x/b.jpg'' @ ''"'' @ '' '')\<close>
    by code_simp
  from self_closing_tag_extracted_twice [OF f a u a(2) n]
  obtain urls where e: "extract_image_urls example_downloader ?w = Inr urls"
    and c: "2 \<le> count_list urls ''http://x/b.jpg''"
    by blast
  have v: \<open>extract_image_urls example_downloader ?w = Inr [''http://x/b.jpg'', ''http://x/b.jpg'']\<close>
    by code_simp
  with e have "urls = [''http://x/b.jpg'', ''http://x/b.jpg'']" by simp
  with c v show ?thesis by simp
qed

text \<open>
  C10 as stated fails. In a tag that carries a \<open>data-src\<close> attribute after its \<open>src\<close>
  attribute, both patterns run to the last \<open>src="\<close>: the extractor returns the value of
  \<open>data-src\<close> twice and the value of \<open>src\<close> not at all.
\<close>

theorem self_closing_tag_counterexample:
  \<open>extract_image_urls example_downloader (doc_world ''<img src="a.gif" data-src="b.jpg" />'')
     = Inr [''b.jpg'', ''b.jpg'']\<close>
  by code_simp

section \<open>Rewriting a document of links\<close>




lemma lit_first: "t \<noteq> [] \<Longrightarrow> c \<noteq> hd t \<Longrightarrow> rmatch (lit t @ ps) (c # s) = None"
  by (cases t) (auto simp: lit_def)




























end
